theory Spec2Isabelle
  imports Main "HOL-Library.Sublist"
begin

section \<open>Python strings\<close>

text \<open>
  A Python \<open>str\<close> is a sequence of Unicode code points and \<open>len\<close> counts code points,
  so a document is a list of code points. \<open>ustr\<close> reads a literal of the script
  (all of them are ASCII).
\<close>

type_synonym codepoint = nat
type_synonym str = "codepoint list"

definition ustr :: "string \<Rightarrow> str" where
  "ustr cs = map of_char cs"

text \<open>
  The class \<open>\s\<close> of a \<open>str\<close> pattern is \<open>str.isspace\<close> on one character
  (CPython's \<open>Py_UNICODE_ISSPACE\<close>): tab to carriage return, the four separators
  U+001C..U+001F, the space, U+0085, U+00A0, U+1680, U+2000..U+200A, U+2028, U+2029,
  U+202F, U+205F and U+3000.
\<close>

definition isspace :: "codepoint \<Rightarrow> bool" where
  "isspace c \<longleftrightarrow>
     (9 \<le> c \<and> c \<le> 13) \<or> (28 \<le> c \<and> c \<le> 32) \<or> c = 133 \<or> c = 160 \<or> c = 5760 \<or>
     (8192 \<le> c \<and> c \<le> 8202) \<or> c = 8232 \<or> c = 8233 \<or> c = 8239 \<or> c = 8287 \<or> c = 12288"

definition rstrip :: "str \<Rightarrow> str" where
  "rstrip t = rev (dropWhile isspace (rev t))"

section \<open>The fragment of \<open>re\<close> the script uses\<close>

text \<open>
  Both patterns are a sequence of literals, greedy stars \<open>\s*\<close> and a lazy star \<open>.*?\<close>
  over one-character classes. \<open>re_match\<close> is the backtracking matcher at one position:
  it returns the text left after the first match in the engine's order of preference
  (a greedy star tries one more character before it tries the rest of the pattern, a
  lazy star tries the rest of the pattern first). The flag is \<open>re.DOTALL\<close>: without it
  \<open>.\<close> does not match a newline.
\<close>

datatype cls = Space | Dot

datatype item = Lit str | Greedy cls | Lazy cls

type_synonym pattern = "item list"

fun in_cls :: "bool \<Rightarrow> cls \<Rightarrow> codepoint \<Rightarrow> bool" where
  "in_cls dotall Space c = isspace c"
| "in_cls dotall Dot c = (dotall \<or> c \<noteq> 10)"

fun re_match :: "bool \<Rightarrow> pattern \<Rightarrow> str \<Rightarrow> str option" where
  "re_match f [] t = Some t"
| "re_match f (Lit l # p) t =
     (if prefix l t then re_match f p (drop (length l) t) else None)"
| "re_match f (Greedy c # p) [] = re_match f p []"
| "re_match f (Greedy c # p) (x # t) =
     (if in_cls f c x
      then (case re_match f (Greedy c # p) t of
              Some r \<Rightarrow> Some r
            | None \<Rightarrow> re_match f p (x # t))
      else re_match f p (x # t))"
| "re_match f (Lazy c # p) [] = re_match f p []"
| "re_match f (Lazy c # p) (x # t) =
     (case re_match f p (x # t) of
        Some r \<Rightarrow> Some r
      | None \<Rightarrow> if in_cls f c x then re_match f (Lazy c # p) t else None)"

text \<open>
  \<open>re.sub(pattern, '', content, flags)\<close> with the default \<open>count=0\<close>: scan from the
  left, delete every match and go on behind it, copy a character where no match starts.
  A match of the script's patterns is never empty (\<open>block_pattern_consumes\<close> below), so
  the rule of \<open>re.sub\<close> for empty matches never applies; the model copies the character
  there.
\<close>

function re_sub :: "bool \<Rightarrow> pattern \<Rightarrow> str \<Rightarrow> str" where
  "re_sub f p [] = []"
| "re_sub f p (x # t) =
     (case re_match f p (x # t) of
        Some r \<Rightarrow> if length r < length (x # t) then re_sub f p r else x # re_sub f p t
      | None \<Rightarrow> x # re_sub f p t)"
  by pat_completeness auto
termination
  by (relation "measure (\<lambda>(f, p, t). length t)") auto

section \<open>remove\_cards.py\<close>

definition optimization_marker :: str where
  "optimization_marker = ustr ''{/* Right Column: Optimization Results */}''"

definition forecast_marker :: str where
  "forecast_marker = ustr ''{/* Unified Forecast Bands Card - Full Width */}''"

definition div_close :: str where
  "div_close = ustr ''</div>''"

text \<open>\<open>\s*MARKER.*?</div>\s*</div>\<close>, the shape of both patterns.\<close>

definition block_pattern :: "str \<Rightarrow> pattern" where
  "block_pattern marker =
     [Greedy Space, Lit marker, Lazy Dot, Lit div_close, Greedy Space, Lit div_close]"

definition remove_optimization_result_section :: "str \<Rightarrow> str" where
  "remove_optimization_result_section content =
     re_sub True (block_pattern optimization_marker) content"

definition remove_forecast_bands_section :: "str \<Rightarrow> str" where
  "remove_forecast_bands_section content =
     re_sub True (block_pattern forecast_marker) content"

text \<open>The two removers, indexed by the block they target.\<close>

datatype block = OptimizationResults | ForecastBands

fun start_marker :: "block \<Rightarrow> str" where
  "start_marker OptimizationResults = optimization_marker"
| "start_marker ForecastBands = forecast_marker"

fun remover :: "block \<Rightarrow> str \<Rightarrow> str" where
  "remover OptimizationResults = remove_optimization_result_section"
| "remover ForecastBands = remove_forecast_bands_section"

subsection \<open>The driver\<close>

text \<open>
  The file system maps a path to a file; \<open>decoded\<close> is the text the file's bytes decode
  to as UTF-8, \<open>None\<close> when they are not valid UTF-8. \<open>linesep\<close> is \<open>os.linesep\<close> of the
  platform (a line feed on POSIX, carriage return and line feed on Windows). \<open>stdout\<close>
  collects the printed lines. \<open>main\<close> returns the exception that ended it, if any, and
  the world it leaves.

  Both \<open>open\<close> calls of the script leave \<open>newline\<close> at its default, so the text layer
  translates line ends: \<open>read\<close> returns the decoded text with every carriage return and
  line feed pair and every lone carriage return turned into one line feed
  (\<open>read_translate\<close>), and \<open>write\<close> stores every line feed as \<open>os.linesep\<close>
  (\<open>write_translate\<close>).
\<close>

datatype error = FileNotFoundError | PermissionError | UnicodeDecodeError

record text_file =
  readable :: bool
  writable :: bool
  decoded :: "str option"

record world =
  files :: "string \<rightharpoonup> text_file"
  linesep :: str
  stdout :: "string list"

fun read_translate :: "str \<Rightarrow> str" where
  "read_translate [] = []"
| "read_translate [c] = [if c = 13 then 10 else c]"
| "read_translate (c # d # t) =
     (if c = 13 \<and> d = 10 then 10 # read_translate t
      else if c = 13 then 10 # read_translate (d # t)
      else c # read_translate (d # t))"

fun write_translate :: "str \<Rightarrow> str \<Rightarrow> str" where
  "write_translate sep [] = []"
| "write_translate sep (c # t) =
     (if c = 10 then sep @ write_translate sep t else c # write_translate sep t)"

definition read_text :: "world \<Rightarrow> string \<Rightarrow> error + str" where
  "read_text w path =
     (case files w path of
        None \<Rightarrow> Inl FileNotFoundError
      | Some fl \<Rightarrow>
          if \<not> readable fl then Inl PermissionError
          else (case decoded fl of
                  None \<Rightarrow> Inl UnicodeDecodeError
                | Some c \<Rightarrow> Inr (read_translate c)))"

definition write_text :: "world \<Rightarrow> string \<Rightarrow> str \<Rightarrow> error + world" where
  "write_text w path c =
     (case files w path of
        None \<Rightarrow>
          Inr (w\<lparr>files := (files w)(path \<mapsto>
                 \<lparr>readable = True, writable = True,
                  decoded = Some (write_translate (linesep w) c)\<rparr>)\<rparr>)
      | Some fl \<Rightarrow>
          if writable fl
          then Inr (w\<lparr>files := (files w)(path \<mapsto>
                      fl\<lparr>decoded := Some (write_translate (linesep w) c)\<rparr>)\<rparr>)
          else Inl PermissionError)"

definition print :: "string \<Rightarrow> world \<Rightarrow> world" where
  "print line w = w\<lparr>stdout := stdout w @ [line]\<rparr>"

text \<open>The decimal digits of a length, as an f-string renders it.\<close>

function format_int :: "nat \<Rightarrow> string" where
  "format_int n =
     (if n < 10 then [''0123456789'' ! n]
      else format_int (n div 10) @ [''0123456789'' ! (n mod 10)])"
  by pat_completeness auto
termination
  by (relation "measure id") auto

declare format_int.simps [simp del]

definition file_path :: string where
  "file_path = ''app/company/[ticker]/timing/page.tsx''"

definition main :: "world \<Rightarrow> error option \<times> world" where
  "main w =
     (case read_text w file_path of
        Inl e \<Rightarrow> (Some e, w)
      | Inr content \<Rightarrow>
          let w1 = print (''Original file size: '' @ format_int (length content)
                          @ '' characters'') w;
              content1 = remove_optimization_result_section content;
              w2 = print (''After removing optimization result: ''
                          @ format_int (length content1) @ '' characters'') w1;
              content2 = remove_forecast_bands_section content1;
              w3 = print (''After removing forecast bands: ''
                          @ format_int (length content2) @ '' characters'') w2
          in (case write_text w3 file_path content2 of
                Inl e \<Rightarrow> (Some e, w3)
              | Inr w4 \<Rightarrow> (None, print ''Successfully removed both sections!'' w4)))"

section \<open>Vocabulary of the properties\<close>

text \<open>
  \<open>re_search\<close> is \<open>re.search\<close>: the leftmost position where the pattern matches, as the
  text before the match and the text behind it.
\<close>

fun re_search :: "bool \<Rightarrow> pattern \<Rightarrow> str \<Rightarrow> (str \<times> str) option" where
  "re_search f p [] = (case re_match f p [] of Some r \<Rightarrow> Some ([], r) | None \<Rightarrow> None)"
| "re_search f p (x # t) =
     (case re_match f p (x # t) of
        Some r \<Rightarrow> Some ([], r)
      | None \<Rightarrow> (case re_search f p t of
                   Some (a, r) \<Rightarrow> Some (x # a, r)
                 | None \<Rightarrow> None))"

text \<open>
  A closing boundary is \<open></div>\<close>, any run of whitespace, \<open></div>\<close>. \<open>closing_at t\<close>:
  the text \<open>t\<close> begins with one. \<open>has_closing t\<close>: one begins somewhere in \<open>t\<close>.
  \<open>followed s t\<close>: some occurrence of \<open>s\<close> in \<open>t\<close> has a closing boundary behind it.
  \<open>occurrences s t\<close>: the positions of \<open>t\<close> where \<open>s\<close> occurs. \<open>str_find t s\<close> is
  \<open>t.find(s)\<close>: the first of them.
\<close>

definition closing_at :: "str \<Rightarrow> bool" where
  "closing_at t \<longleftrightarrow>
     prefix div_close t \<and>
     prefix div_close (dropWhile isspace (drop (length div_close) t))"

fun has_closing :: "str \<Rightarrow> bool" where
  "has_closing [] = False"
| "has_closing (x # t) = (closing_at (x # t) \<or> has_closing t)"

fun followed :: "str \<Rightarrow> str \<Rightarrow> bool" where
  "followed s [] = False"
| "followed s (x # t) =
     ((prefix s (x # t) \<and> has_closing (drop (length s) (x # t))) \<or> followed s t)"

definition occurrences :: "str \<Rightarrow> str \<Rightarrow> nat list" where
  "occurrences s t = filter (\<lambda>i. prefix s (drop i t)) [0..<Suc (length t)]"

definition str_find :: "str \<Rightarrow> str \<Rightarrow> nat option" where
  "str_find t s = List.find (\<lambda>i. prefix s (drop i t)) [0..<Suc (length t)]"

text \<open>The least number of characters a match of the pattern consumes.\<close>

fun min_width :: "pattern \<Rightarrow> nat" where
  "min_width [] = 0"
| "min_width (Lit l # p) = length l + min_width p"
| "min_width (Greedy c # p) = min_width p"
| "min_width (Lazy c # p) = min_width p"

subsection \<open>A page and a file system to run the driver on\<close>

definition example_page :: str where
  "example_page = ustr ''<main>\<newline>  {/* Right Column: Optimization Results */}\<newline>  <div><div>a</div>\<newline>  </div>\<newline>  {/* Unified Forecast Bands Card - Full Width */}<div><div>b</div></div>\<newline></main>''"

definition example_file :: text_file where
  "example_file = \<lparr>readable = True, writable = True, decoded = Some example_page\<rparr>"

definition example_world :: world where
  "example_world = \<lparr>files = [file_path \<mapsto> example_file], linesep = [10], stdout = []\<rparr>"

text \<open>
  A page whose first line ends in carriage return and line feed and whose second line
  ends in a lone carriage return, on a platform that writes both characters.
\<close>

definition crlf_page :: str where
  "crlf_page =
     ustr ''x'' @ [13, 10] @ ustr ''{/* Right Column: Optimization Results */}a</div></div>''
     @ [13] @ ustr ''y{/* Unified Forecast Bands Card - Full Width */}b</div> </div>''"

definition crlf_world :: world where
  "crlf_world =
     \<lparr>files = [file_path \<mapsto> \<lparr>readable = True, writable = True, decoded = Some crlf_page\<rparr>],
      linesep = [13, 10], stdout = []\<rparr>"

section \<open>The matcher and the substitution\<close>

text \<open>
  A match consumes at least the literals of the pattern; a greedy star in front of a
  literal that starts outside its class skips the whole run; a lazy star stops at the
  first position where the rest of the pattern matches.
\<close>

lemma re_match_width: "re_match f p t = Some r \<Longrightarrow> length r + min_width p \<le> length t"
proof (induction f p t arbitrary: r rule: re_match.induct)
  case (1 f t) then show ?case by simp
next
  case (2 f l p t)
  from "2.prems" have pl: "prefix l t" and m: "re_match f p (drop (length l) t) = Some r"
    by (auto split: if_splits)
  from "2.IH"[OF pl m] have "length r + min_width p \<le> length t - length l" by simp
  moreover from pl have "length l \<le> length t" by (rule prefix_length_le)
  ultimately show ?case by simp
next
  case (3 f c p) then show ?case by simp
next
  case (4 f c p x t)
  show ?case
  proof (cases "in_cls f c x")
    case True
    show ?thesis
    proof (cases "re_match f (Greedy c # p) t")
      case None
      with True "4.prems" have "re_match f p (x # t) = Some r" by simp
      from "4.IH"(2)[OF True None this] show ?thesis by simp
    next
      case (Some r')
      with True "4.prems" have "r' = r" by simp
      with "4.IH"(1)[OF True] Some show ?thesis by fastforce
    qed
  next
    case False
    with "4.prems" have "re_match f p (x # t) = Some r" by simp
    from "4.IH"(3)[OF False this] show ?thesis by simp
  qed
next
  case (5 f c p) then show ?case by simp
next
  case (6 f c p x t)
  show ?case
  proof (cases "re_match f p (x # t)")
    case (Some r')
    with "6.prems" have "r' = r" by simp
    with "6.IH"(1) Some show ?thesis by simp
  next
    case None
    with "6.prems" have c: "in_cls f c x" and m: "re_match f (Lazy c # p) t = Some r"
      by (auto split: if_splits)
    from "6.IH"(2)[OF None c m] show ?thesis by simp
  qed
qed

lemma greedy_skip:
  "\<not> in_cls f c a \<Longrightarrow>
   re_match f (Greedy c # Lit (a # l) # p) t = re_match f (Lit (a # l) # p) (dropWhile (in_cls f c) t)"
  by (induction t) (auto split: option.splits)

lemma lazy_skip:
  "n \<le> length t \<Longrightarrow> (\<forall>k<n. re_match f p (drop k t) = None \<and> in_cls f c (t ! k)) \<Longrightarrow>
   re_match f (Lazy c # p) t = re_match f (Lazy c # p) (drop n t)"
proof (induction n arbitrary: t)
  case 0 then show ?case by simp
next
  case (Suc n)
  then obtain x t' where t: "t = x # t'" by (cases t) auto
  from Suc.prems have h0: "re_match f p (x # t') = None" "in_cls f c x" using t by auto
  have "re_match f (Lazy c # p) t' = re_match f (Lazy c # p) (drop n t')"
  proof (rule Suc.IH)
    show "n \<le> length t'" using Suc.prems t by simp
    show "\<forall>k<n. re_match f p (drop k t') = None \<and> in_cls f c (t' ! k)"
    proof (intro allI impI)
      fix k assume "k < n"
      then have "Suc k < Suc n" by simp
      with Suc.prems(2) have "re_match f p (drop (Suc k) t) = None \<and> in_cls f c (t ! Suc k)" by blast
      then show "re_match f p (drop k t') = None \<and> in_cls f c (t' ! k)" using t by simp
    qed
  qed
  then show ?case using t h0 by simp
qed

lemma re_sub_length: "length (re_sub f p t) \<le> length t"
proof (induction f p t rule: re_sub.induct)
  case (1 f p) show ?case by simp
next
  case (2 f p x t)
  then show ?case by (auto split: option.splits)
qed

lemma re_sub_no_match:
  "(\<forall>i<length t. re_match f p (drop i t) = None) \<Longrightarrow> re_sub f p t = t"
proof (induction t)
  case Nil show ?case by simp
next
  case (Cons x t)
  have "re_match f p (x # t) = None" using Cons.prems by (metis drop0 length_greater_0_conv list.distinct(1))
  moreover have "\<forall>i<length t. re_match f p (drop i t) = None"
  proof (intro allI impI)
    fix i assume "i < length t"
    then have "Suc i < length (x # t)" by simp
    with Cons.prems have "re_match f p (drop (Suc i) (x # t)) = None" by blast
    then show "re_match f p (drop i t) = None" by simp
  qed
  ultimately show ?case using Cons.IH by simp
qed

subsection \<open>The patterns of the script\<close>

text \<open>
  Both markers start with \<open>{\<close> and \<open></div>\<close> starts with \<open><\<close>, neither of them
  whitespace, so the stars \<open>\s*\<close> never have to give characters back.
\<close>

lemma div_close_eq: "div_close = [60, 47, 100, 105, 118, 62]"
  by (simp add: div_close_def ustr_def)

lemma isspace_60: "\<not> isspace 60"
  by (simp add: isspace_def)

lemma isspace_123: "\<not> isspace 123"
  by (simp add: isspace_def)

lemma start_marker_Cons: "\<exists>l. start_marker b = 123 # l"
  by (cases b) (simp_all add: optimization_marker_def forecast_marker_def ustr_def)

lemma in_cls_Space: "in_cls f Space = isspace"
  by (rule ext) simp

lemma remover_eq: "remover b = re_sub True (block_pattern (start_marker b))"
  by (cases b) (auto simp: remove_optimization_result_section_def remove_forecast_bands_section_def)

lemma closing_match:
  "re_match f [Lit div_close, Greedy Space, Lit div_close] t =
     (if closing_at t
      then Some (drop (length div_close) (dropWhile isspace (drop (length div_close) t)))
      else None)"
proof -
  have "re_match f [Greedy Space, Lit div_close] u =
        re_match f [Lit div_close] (dropWhile isspace u)" for u
    using greedy_skip[of f Space 60 "[47, 100, 105, 118, 62]" "[]" u] isspace_60
    by (simp add: div_close_eq in_cls_Space)
  then show ?thesis
    by (simp add: closing_at_def)
qed

lemma block_match:
  assumes "\<not> isspace a"
  shows "re_match True (block_pattern (a # l)) t =
     (if prefix (a # l) (dropWhile isspace t)
      then re_match True [Lazy Dot, Lit div_close, Greedy Space, Lit div_close]
             (drop (length (a # l)) (dropWhile isspace t))
      else None)"
  using greedy_skip[of True Space a l _ t] assms
  by (simp add: block_pattern_def in_cls_Space)

lemma lazy_closing_first:
  assumes "n \<le> length u" "\<forall>k<n. \<not> closing_at (drop k u)" "closing_at (drop n u)"
  shows "re_match True [Lazy Dot, Lit div_close, Greedy Space, Lit div_close] u =
         Some (drop (length div_close) (dropWhile isspace (drop (length div_close) (drop n u))))"
proof -
  have "re_match True [Lazy Dot, Lit div_close, Greedy Space, Lit div_close] u =
        re_match True [Lazy Dot, Lit div_close, Greedy Space, Lit div_close] (drop n u)"
    using assms(1,2) by (intro lazy_skip) (simp_all add: closing_match del: re_match.simps)
  also have "\<dots> = Some (drop (length div_close) (dropWhile isspace (drop (length div_close) (drop n u))))"
  proof (cases "drop n u")
    case Nil
    with assms(3) show ?thesis by (simp add: closing_at_def div_close_eq)
  next
    case (Cons x v)
    have "re_match True [Lit div_close, Greedy Space, Lit div_close] (x # v) =
          Some (drop (length div_close) (dropWhile isspace (drop (length div_close) (x # v))))"
      using assms(3) Cons by (simp only: closing_match if_True)
    then show ?thesis unfolding Cons by (simp only: re_match.simps(6) option.case)
  qed
  finally show ?thesis .
qed

lemma lazy_closing_iff:
  "re_match True [Lazy Dot, Lit div_close, Greedy Space, Lit div_close] u \<noteq> None \<longleftrightarrow> has_closing u"
proof (induction u)
  case Nil
  show ?case by (simp add: div_close_eq)
next
  case (Cons x u)
  have "re_match True [Lazy Dot, Lit div_close, Greedy Space, Lit div_close] (x # u) =
        (if closing_at (x # u)
         then Some (drop (length div_close) (dropWhile isspace (drop (length div_close) (x # u))))
         else re_match True [Lazy Dot, Lit div_close, Greedy Space, Lit div_close] u)"
    by (simp only: re_match.simps(6) closing_match in_cls.simps)
       (simp del: re_match.simps)
  with Cons.IH show ?case by (simp del: re_match.simps)
qed

subsection \<open>The first block of a document\<close>

lemma rstrip_Nil: "rstrip [] = []"
  by (simp add: rstrip_def)

lemma rstrip_Cons:
  "rstrip (x # t) = (if (\<forall>c\<in>set (x # t). isspace c) then [] else x # rstrip t)"
  by (auto simp: rstrip_def dropWhile_append)

lemma rstrip_spaces: "\<forall>c\<in>set t. isspace c \<Longrightarrow> rstrip t = []"
  by (simp add: rstrip_def)

lemma dropWhile_spaces_append:
  "\<forall>c\<in>set ws. isspace c \<Longrightarrow> \<not> isspace a \<Longrightarrow> dropWhile isspace (ws @ a # t) = a # t"
  by (simp add: dropWhile_append)

lemma closing_at_boundary:
  assumes "\<forall>c\<in>set W. isspace c"
  shows "closing_at (div_close @ W @ div_close @ R)"
    and "drop (length div_close)
           (dropWhile isspace (drop (length div_close) (div_close @ W @ div_close @ R))) = R"
proof -
  have d: "dropWhile isspace (W @ div_close @ R) = div_close @ R"
    using dropWhile_spaces_append[OF assms isspace_60] by (simp add: div_close_eq)
  show "closing_at (div_close @ W @ div_close @ R)"
    by (simp add: closing_at_def d)
  show "drop (length div_close)
           (dropWhile isspace (drop (length div_close) (div_close @ W @ div_close @ R))) = R"
    by (simp add: d)
qed

lemma block_match_here:
  assumes a: "\<not> isspace a"
    and ws: "\<forall>c\<in>set ws. isspace c"
    and W: "\<forall>c\<in>set W. isspace c"
    and M: "\<forall>k<length M. \<not> closing_at (drop k (M @ div_close @ W @ div_close @ R))"
  shows "re_match True (block_pattern (a # l)) (ws @ (a # l) @ M @ div_close @ W @ div_close @ R)
         = Some R"
proof -
  let ?u = "M @ div_close @ W @ div_close @ R"
  have d: "dropWhile isspace (ws @ (a # l) @ ?u) = (a # l) @ ?u"
    using dropWhile_spaces_append[OF ws a] by simp
  have "re_match True [Lazy Dot, Lit div_close, Greedy Space, Lit div_close] ?u =
        Some (drop (length div_close) (dropWhile isspace (drop (length div_close) (drop (length M) ?u))))"
    using M closing_at_boundary(1)[OF W, of R] by (intro lazy_closing_first) simp_all
  also have "\<dots> = Some R"
    using closing_at_boundary(2)[OF W, of R] by simp
  finally have "re_match True [Lazy Dot, Lit div_close, Greedy Space, Lit div_close] ?u = Some R" .
  then show ?thesis
    unfolding block_match[OF a] d by (simp del: re_match.simps)
qed

lemma block_match_marker:
  assumes a: "\<not> isspace a" and m: "re_match True (block_pattern (a # l)) t = Some r"
  shows "\<exists>j\<le>length t. prefix (a # l) (drop j t) \<and> has_closing (drop (length (a # l)) (drop j t))"
proof -
  from m have p: "prefix (a # l) (dropWhile isspace t)"
    and c: "re_match True [Lazy Dot, Lit div_close, Greedy Space, Lit div_close]
             (drop (length (a # l)) (dropWhile isspace t)) \<noteq> None"
    unfolding block_match[OF a] by (auto split: if_splits)
  have "dropWhile isspace t = drop (length (takeWhile isspace t)) t"
    by (simp add: dropWhile_eq_drop)
  moreover have "length (takeWhile isspace t) \<le> length t"
    by (rule length_takeWhile_le)
  ultimately show ?thesis
    using p c lazy_closing_iff by metis
qed

lemma dropWhile_is_drop:
  "\<not> (\<forall>c\<in>set A. P c) \<Longrightarrow> \<exists>j<length A. dropWhile P (A @ t) = drop j (A @ t)"
proof (induction A)
  case Nil then show ?case by simp
next
  case (Cons x A)
  show ?case
  proof (cases "P x")
    case False
    then have "dropWhile P ((x # A) @ t) = drop 0 ((x # A) @ t)" by simp
    then show ?thesis by (intro exI[of _ 0]) simp
  next
    case True
    with Cons.prems have "\<not> (\<forall>c\<in>set A. P c)" by simp
    from Cons.IH[OF this] obtain j where "j < length A" "dropWhile P (A @ t) = drop j (A @ t)"
      by blast
    with True show ?thesis by (intro exI[of _ "Suc j"]) simp
  qed
qed

lemma block_no_match_before:
  assumes a: "\<not> isspace a"
    and A: "\<not> (\<forall>c\<in>set A. isspace c)"
    and occ: "\<forall>i<length A. \<not> prefix (a # l) (drop i (A @ t))"
  shows "re_match True (block_pattern (a # l)) (A @ t) = None"
proof -
  from dropWhile_is_drop[OF A] obtain j where
    j: "j < length A" and d: "dropWhile isspace (A @ t) = drop j (A @ t)" by blast
  from occ j have "\<not> prefix (a # l) (drop j (A @ t))" by blast
  then show ?thesis
    unfolding block_match[OF a] d by (simp only: if_False)
qed

lemma remove_first_block:
  assumes a: "\<not> isspace a"
    and W: "\<forall>c\<in>set W. isspace c"
    and M: "\<forall>k<length M. \<not> closing_at (drop k (M @ div_close @ W @ div_close @ R))"
    and occ: "\<forall>i<length A. \<not> prefix (a # l) (drop i (A @ (a # l) @ M @ div_close @ W @ div_close @ R))"
  shows "re_sub True (block_pattern (a # l)) (A @ (a # l) @ M @ div_close @ W @ div_close @ R)
         = rstrip A @ re_sub True (block_pattern (a # l)) R"
  using occ
proof (induction A)
  case Nil
  have "re_match True (block_pattern (a # l)) ((a # l) @ M @ div_close @ W @ div_close @ R) = Some R"
    using block_match_here[OF a _ W M, of "[]" l] by simp
  then have "re_match True (block_pattern (a # l)) (a # l @ M @ div_close @ W @ div_close @ R) = Some R"
    by (simp only: append_Cons)
  then show ?case 
    by (simp only: append_Nil append_Cons re_sub.simps rstrip_Nil option.case) (simp add: div_close_eq)
next
  case (Cons x A)
  let ?t = "(a # l) @ M @ div_close @ W @ div_close @ R"
  show ?case
  proof (cases "\<forall>c\<in>set (x # A). isspace c")
    case True
    have "re_match True (block_pattern (a # l)) ((x # A) @ ?t) = Some R"
      by (rule block_match_here[OF a True W M])
    then have "re_match True (block_pattern (a # l)) (x # A @ ?t) = Some R"
      by (simp only: append_Cons)
    then have "re_sub True (block_pattern (a # l)) (x # A @ ?t) = re_sub True (block_pattern (a # l)) R"
      by (simp only: re_sub.simps option.case) (simp add: div_close_eq)
    then show ?thesis using True by (simp only: rstrip_spaces append_Nil append_Cons)
  next
    case False
    have none: "re_match True (block_pattern (a # l)) ((x # A) @ ?t) = None"
      by (rule block_no_match_before[OF a False Cons.prems])
    then have none': "re_match True (block_pattern (a # l)) (x # A @ ?t) = None"
      by (simp only: append_Cons)
    have "\<forall>i<length A. \<not> prefix (a # l) (drop i (A @ ?t))"
    proof (intro allI impI)
      fix i assume "i < length A"
      then have "Suc i < length (x # A)" by simp
      with Cons.prems have "\<not> prefix (a # l) (drop (Suc i) ((x # A) @ ?t))" by blast
      then show "\<not> prefix (a # l) (drop i (A @ ?t))" by simp
    qed
    from Cons.IH[OF this]
    have ih: "re_sub True (block_pattern (a # l)) (A @ ?t) = rstrip A @ re_sub True (block_pattern (a # l)) R" .
    have "re_sub True (block_pattern (a # l)) (x # A @ ?t) = x # re_sub True (block_pattern (a # l)) (A @ ?t)"
      using none' by (simp only: re_sub.simps option.case)
    with ih False show ?thesis
      by (simp only: rstrip_Cons if_False append_Cons)
  qed
qed

subsection \<open>When a remover changes a document\<close>

lemma min_width_block: "0 < min_width (block_pattern (a # l))"
  by (simp add: block_pattern_def)

lemma block_pattern_consumes:
  "re_match f (block_pattern (a # l)) t = Some r \<Longrightarrow> length r < length t"
  using re_match_width[of f "block_pattern (a # l)" t r] min_width_block[of a l] by simp

lemma re_sub_shrinks:
  assumes w: "0 < min_width p"
  shows "\<exists>i<length t. re_match f p (drop i t) \<noteq> None \<Longrightarrow> length (re_sub f p t) < length t"
proof (induction t)
  case Nil then show ?case by simp
next
  case (Cons x t)
  show ?case
  proof (cases "re_match f p (x # t)")
    case (Some r)
    from re_match_width[OF Some] w have lt: "length r < length (x # t)" by simp
    have "length (re_sub f p r) \<le> length r" by (rule re_sub_length)
    with lt Some show ?thesis by simp
  next
    case None
    from Cons.prems obtain i where i: "i < length (x # t)" "re_match f p (drop i (x # t)) \<noteq> None"
      by blast
    with None obtain i' where "i = Suc i'" by (cases i) auto
    with i have "\<exists>i<length t. re_match f p (drop i t) \<noteq> None" by auto
    from Cons.IH[OF this] None show ?thesis by simp
  qed
qed

lemma re_sub_changes_iff:
  assumes w: "0 < min_width p"
  shows "re_sub f p t \<noteq> t \<longleftrightarrow> (\<exists>i<length t. re_match f p (drop i t) \<noteq> None)"
proof
  assume "re_sub f p t \<noteq> t"
  then show "\<exists>i<length t. re_match f p (drop i t) \<noteq> None"
    using re_sub_no_match[of t f p] by blast
next
  assume "\<exists>i<length t. re_match f p (drop i t) \<noteq> None"
  from re_sub_shrinks[OF w this] show "re_sub f p t \<noteq> t" by auto
qed

lemma followed_drop: "followed s (drop i t) \<Longrightarrow> followed s t"
proof (induction t arbitrary: i)
  case Nil then show ?case by simp
next
  case (Cons x t)
  show ?case
  proof (cases i)
    case 0 with Cons.prems show ?thesis by simp
  next
    case (Suc j)
    with Cons.prems have "followed s (drop j t)" by simp
    from Cons.IH[OF this] show ?thesis by simp
  qed
qed

lemma followed_here:
  "prefix (a # l) t \<Longrightarrow> has_closing (drop (length (a # l)) t) \<Longrightarrow> followed (a # l) t"
  by (cases t) simp_all

lemma block_match_followed:
  assumes a: "\<not> isspace a" and m: "re_match True (block_pattern (a # l)) t \<noteq> None"
  shows "followed (a # l) t"
proof -
  from m obtain r where "re_match True (block_pattern (a # l)) t = Some r" by blast
  from block_match_marker[OF a this] obtain j where
    "prefix (a # l) (drop j t)" "has_closing (drop (length (a # l)) (drop j t))" by blast
  then have "followed (a # l) (drop j t)" by (rule followed_here)
  then show ?thesis by (rule followed_drop)
qed

lemma followed_block_match:
  assumes a: "\<not> isspace a"
  shows "followed (a # l) t \<Longrightarrow> \<exists>i<length t. re_match True (block_pattern (a # l)) (drop i t) \<noteq> None"
proof (induction t)
  case Nil then show ?case by simp
next
  case (Cons x t)
  show ?case
  proof (cases "prefix (a # l) (x # t) \<and> has_closing (drop (length (a # l)) (x # t))")
    case True
    then have xa: "x = a" by simp
    have "dropWhile isspace (x # t) = x # t" using a xa by simp
    with True have "re_match True (block_pattern (a # l)) (x # t) \<noteq> None"
      unfolding block_match[OF a] using lazy_closing_iff by (simp del: re_match.simps)
    then show ?thesis by (intro exI[of _ 0]) simp
  next
    case False
    with Cons.prems have "followed (a # l) t" by auto
    from Cons.IH[OF this] obtain i where
      "i < length t" "re_match True (block_pattern (a # l)) (drop i t) \<noteq> None" by blast
    then show ?thesis by (intro exI[of _ "Suc i"]) simp
  qed
qed

lemma block_changes_iff:
  assumes a: "\<not> isspace a"
  shows "re_sub True (block_pattern (a # l)) t \<noteq> t \<longleftrightarrow> followed (a # l) t"
proof -
  have "(\<exists>i<length t. re_match True (block_pattern (a # l)) (drop i t) \<noteq> None) \<longleftrightarrow> followed (a # l) t"
    using followed_block_match[OF a] block_match_followed[OF a] followed_drop by blast
  then show ?thesis
    using re_sub_changes_iff[OF min_width_block] by simp
qed

lemma remover_changes_iff: "remover b t \<noteq> t \<longleftrightarrow> followed (start_marker b) t"
proof -
  obtain l where "start_marker b = 123 # l" using start_marker_Cons by blast
  then show ?thesis
    using block_changes_iff[OF isspace_123] by (simp add: remover_eq)
qed

lemma followed_sublist: "followed s t \<Longrightarrow> sublist s t"
  by (induction t) (auto simp: sublist_Cons_right)

subsection \<open>The vocabulary as decompositions of the document\<close>

lemma closing_at_iff:
  "closing_at t \<longleftrightarrow> (\<exists>W B. t = div_close @ W @ div_close @ B \<and> list_all isspace W)"
proof
  assume c: "closing_at t"
  then obtain t1 where t1: "t = div_close @ t1"
    by (auto simp: closing_at_def prefix_def)
  with c obtain B where B: "dropWhile isspace t1 = div_close @ B"
    by (auto simp: closing_at_def prefix_def)
  have "t1 = takeWhile isspace t1 @ dropWhile isspace t1" by simp
  with t1 B have "t = div_close @ takeWhile isspace t1 @ div_close @ B" by simp
  moreover have "list_all isspace (takeWhile isspace t1)"
    by (simp add: list_all_iff) (meson set_takeWhileD)
  ultimately show "\<exists>W B. t = div_close @ W @ div_close @ B \<and> list_all isspace W" by blast
next
  assume "\<exists>W B. t = div_close @ W @ div_close @ B \<and> list_all isspace W"
  then show "closing_at t"
    using closing_at_boundary(1) by (auto simp: list_all_iff)
qed

lemma has_closing_append: "closing_at u \<Longrightarrow> has_closing (M @ u)"
proof (induction M)
  case Nil
  then show ?case by (cases u) (simp_all add: closing_at_def div_close_eq)
next
  case (Cons x M) then show ?case by simp
qed

lemma has_closing_iff:
  "has_closing t \<longleftrightarrow> (\<exists>M W B. t = M @ div_close @ W @ div_close @ B \<and> list_all isspace W)"
proof
  show "has_closing t \<Longrightarrow> \<exists>M W B. t = M @ div_close @ W @ div_close @ B \<and> list_all isspace W"
  proof (induction t)
    case Nil then show ?case by simp
  next
    case (Cons x t)
    show ?case
    proof (cases "closing_at (x # t)")
      case True
      then obtain W B where "x # t = [] @ div_close @ W @ div_close @ B" "list_all isspace W"
        unfolding closing_at_iff by auto
      then show ?thesis by blast
    next
      case False
      with Cons.prems have "has_closing t" by simp
      from Cons.IH[OF this] obtain M W B where
        "t = M @ div_close @ W @ div_close @ B" "list_all isspace W" by blast
      then have "x # t = (x # M) @ div_close @ W @ div_close @ B" by simp
      with \<open>list_all isspace W\<close> show ?thesis by blast
    qed
  qed
next
  assume "\<exists>M W B. t = M @ div_close @ W @ div_close @ B \<and> list_all isspace W"
  then obtain M W B where t: "t = M @ div_close @ W @ div_close @ B" and W: "list_all isspace W"
    by blast
  from W have "closing_at (div_close @ W @ div_close @ B)"
    unfolding closing_at_iff by blast
  then show "has_closing t" unfolding t by (rule has_closing_append)
qed

lemma followed_append:
  "has_closing u \<Longrightarrow> followed (a # l) (A @ (a # l) @ u)"
  by (induction A) simp_all

lemma followed_iff:
  "followed (a # l) t \<longleftrightarrow>
   (\<exists>A M W B. t = A @ (a # l) @ M @ div_close @ W @ div_close @ B \<and> list_all isspace W)"
proof
  show "followed (a # l) t \<Longrightarrow>
    \<exists>A M W B. t = A @ (a # l) @ M @ div_close @ W @ div_close @ B \<and> list_all isspace W"
  proof (induction t)
    case Nil then show ?case by simp
  next
    case (Cons x t)
    show ?case
    proof (cases "prefix (a # l) (x # t) \<and> has_closing (drop (length (a # l)) (x # t))")
      case True
      then obtain u where u: "x # t = (a # l) @ u" by (auto simp: prefix_def)
      with True have "has_closing u" by (metis append_eq_conv_conj)
      then obtain M W B where "u = M @ div_close @ W @ div_close @ B" "list_all isspace W"
        unfolding has_closing_iff by blast
      with u have "x # t = [] @ (a # l) @ M @ div_close @ W @ div_close @ B" by simp
      with \<open>list_all isspace W\<close> show ?thesis by blast
    next
      case False
      with Cons.prems have "followed (a # l) t" by auto
      from Cons.IH[OF this] obtain A M W B where
        "t = A @ (a # l) @ M @ div_close @ W @ div_close @ B" "list_all isspace W" by blast
      then have "x # t = (x # A) @ (a # l) @ M @ div_close @ W @ div_close @ B" by simp
      with \<open>list_all isspace W\<close> show ?thesis by blast
    qed
  qed
next
  assume "\<exists>A M W B. t = A @ (a # l) @ M @ div_close @ W @ div_close @ B \<and> list_all isspace W"
  then obtain A M W B where t: "t = A @ (a # l) @ M @ div_close @ W @ div_close @ B"
    and W: "list_all isspace W" by blast
  from W have "has_closing (M @ div_close @ W @ div_close @ B)"
    unfolding has_closing_iff by blast
  then show "followed (a # l) t" unfolding t by (rule followed_append)
qed

lemma remover_length: "length (remover b D) \<le> length D"
  by (simp add: remover_eq re_sub_length)

subsection \<open>Search and substitution\<close>

lemma re_search_width:
  "re_search f p t = Some (P, T) \<Longrightarrow> length P + length T + min_width p \<le> length t"
proof (induction t arbitrary: P)
  case Nil
  then show ?case using re_match_width[of f p "[]"] by (auto split: option.splits)
next
  case (Cons x t)
  show ?case
  proof (cases "re_match f p (x # t)")
    case (Some r)
    with Cons.prems have "P = []" "T = r" by simp_all
    with re_match_width[OF Some] show ?thesis by simp
  next
    case None
    with Cons.prems obtain P' where s: "re_search f p t = Some (P', T)" and P: "P = x # P'"
      by (auto split: option.splits)
    from Cons.IH[OF s] P show ?thesis by simp
  qed
qed

lemma re_sub_search:
  assumes w: "0 < min_width p"
  shows "re_search f p t = Some (P, T) \<Longrightarrow> re_sub f p t = P @ re_sub f p T"
proof (induction t arbitrary: P)
  case Nil
  then show ?case using re_match_width[of f p "[]"] w by (auto split: option.splits)
next
  case (Cons x t)
  show ?case
  proof (cases "re_match f p (x # t)")
    case (Some r)
    with Cons.prems have PT: "P = []" "T = r" by simp_all
    from re_match_width[OF Some] w have "length r < length (x # t)" by simp
    with Some PT show ?thesis by simp
  next
    case None
    with Cons.prems obtain P' where s: "re_search f p t = Some (P', T)" and P: "P = x # P'"
      by (auto split: option.splits)
    from Cons.IH[OF s] P None show ?thesis by simp
  qed
qed

lemma occurrences_iff: "i \<in> set (occurrences s t) \<longleftrightarrow> i \<le> length t \<and> prefix s (drop i t)"
proof -
  have "i \<in> set [0..<Suc (length t)] \<longleftrightarrow> i \<le> length t" by auto
  then show ?thesis unfolding occurrences_def set_filter by blast
qed

lemma str_find_first:
  assumes "str_find t s = Some n"
  shows "\<forall>i<n. \<not> prefix s (drop i t)"
proof -
  from assms obtain i where i: "i < length [0..<Suc (length t)]" "n = [0..<Suc (length t)] ! i"
    "\<forall>j<i. \<not> prefix s (drop ([0..<Suc (length t)] ! j) t)"
    unfolding str_find_def find_Some_iff by blast
  from i(1,2) have "n = i" by (metis add_0 length_upt minus_nat.diff_0 nth_upt)
  with i show ?thesis by (metis add_0 length_upt less_trans minus_nat.diff_0 nth_upt)
qed

lemma first_block:
  assumes W: "list_all isspace W"
    and M: "\<forall>k<length M. \<not> closing_at (drop k (M @ div_close @ W @ div_close @ R))"
    and occ: "\<forall>i<length A. \<not> prefix (start_marker b)
                (drop i (A @ start_marker b @ M @ div_close @ W @ div_close @ R))"
  shows "remover b (A @ start_marker b @ M @ div_close @ W @ div_close @ R) = rstrip A @ remover b R"
proof -
  obtain l where l: "start_marker b = 123 # l" using start_marker_Cons by blast
  from W have W': "\<forall>c\<in>set W. isspace c" by (simp add: list_all_iff)
  show ?thesis
    using remove_first_block[OF isspace_123 W' M, of A l] occ
    unfolding remover_eq l by blast
qed

subsection \<open>Evaluation on concrete documents\<close>

lemmas eval_defs = remover.simps start_marker.simps remove_optimization_result_section_def
  remove_forecast_bands_section_def block_pattern_def optimization_marker_def
  forecast_marker_def div_close_def ustr_def isspace_def

lemma example_page_results:
  "remove_optimization_result_section example_page =
   ustr ''<main>\<newline>  {/* Unified Forecast Bands Card - Full Width */}<div><div>b</div></div>\<newline></main>''"
  by (simp add: example_page_def eval_defs)

lemma example_page_bands:
  "remove_forecast_bands_section (remove_optimization_result_section example_page) =
   ustr ''<main>\<newline></main>''"
  unfolding example_page_results by (simp add: eval_defs)

lemma example_lengths:
  "length example_page = 162"
  "length (remove_optimization_result_section example_page) = 88"
  "length (remove_forecast_bands_section (remove_optimization_result_section example_page)) = 14"
proof -
  show "length example_page = 162" by (simp add: example_page_def ustr_def)
  show "length (remove_optimization_result_section example_page) = 88"
    unfolding example_page_results by (simp add: ustr_def)
  show "length (remove_forecast_bands_section (remove_optimization_result_section example_page)) = 14"
    unfolding example_page_bands by (simp add: ustr_def)
qed

lemma example_formats:
  "format_int 162 = ''162''" "format_int 88 = ''88''" "format_int 14 = ''14''"
  by (simp_all add: format_int.simps)

section \<open>Which spans are deleted\<close>

text \<open>
  C1 as stated (only the first matching span is deleted, the text behind it is returned
  unchanged) fails: \<open>re.sub\<close> is called without \<open>count\<close>, so every match goes. In the
  document below the pattern matches twice, the text behind the first span is
  \<open>X{/* Right Column: Optimization Results */}</div></div>\<close>, and the remover returns
  \<open>X\<close>.
\<close>

theorem first_only_counterexample:
  "re_search True (block_pattern optimization_marker)
     (ustr ''{/* Right Column: Optimization Results */}</div></div>X{/* Right Column: Optimization Results */}</div></div>'')
     = Some ([], ustr ''X{/* Right Column: Optimization Results */}</div></div>'') \<and>
   re_search True (block_pattern optimization_marker)
     (ustr ''X{/* Right Column: Optimization Results */}</div></div>'') = Some (ustr ''X'', []) \<and>
   remove_optimization_result_section
     (ustr ''{/* Right Column: Optimization Results */}</div></div>X{/* Right Column: Optimization Results */}</div></div>'')
     = ustr ''X'' \<and>
   remove_optimization_result_section
     (ustr ''{/* Right Column: Optimization Results */}</div></div>X{/* Right Column: Optimization Results */}</div></div>'')
     \<noteq> ustr ''X{/* Right Column: Optimization Results */}</div></div>''"
  by (simp add: eval_defs)

text \<open>
  C1, amended: when the pattern of a remover has more than one matching span in \<open>D\<close>, the
  remover deletes every one of them, scanning from the left: with \<open>P\<close> the text before
  the first span and \<open>T\<close> the text behind it, the output is \<open>P\<close> followed by the
  remover's output on \<open>T\<close>; the second span, which starts in \<open>T\<close> behind \<open>P2\<close>, is
  deleted too, so \<open>T\<close> is not returned unchanged.
\<close>

theorem every_match_removed:
  assumes "re_search True (block_pattern (start_marker b)) D = Some (P, T)"
    and "re_search True (block_pattern (start_marker b)) T = Some (P2, T2)"
  shows "remover b D = P @ remover b T \<and> remover b T = P2 @ remover b T2 \<and> remover b T \<noteq> T"
proof -
  obtain l where l: "start_marker b = 123 # l" using start_marker_Cons by blast
  have w: "0 < min_width (block_pattern (start_marker b))"
    unfolding l by (rule min_width_block)
  have 1: "remover b D = P @ remover b T"
    unfolding remover_eq by (rule re_sub_search[OF w assms(1)])
  have 2: "remover b T = P2 @ remover b T2"
    unfolding remover_eq by (rule re_sub_search[OF w assms(2)])
  have "length (remover b T2) \<le> length T2" by (rule remover_length)
  with re_search_width[OF assms(2)] w have "length (P2 @ remover b T2) < length T" by simp
  with 1 2 show ?thesis by auto
qed

theorem every_match_removed_witness:
  "re_search True (block_pattern (start_marker ForecastBands))
     (ustr ''a {/* Unified Forecast Bands Card - Full Width */}b</div></div>c {/* Unified Forecast Bands Card - Full Width */}d</div> </div>e'')
     = Some (ustr ''a'', ustr ''c {/* Unified Forecast Bands Card - Full Width */}d</div> </div>e'') \<and>
   re_search True (block_pattern (start_marker ForecastBands))
     (ustr ''c {/* Unified Forecast Bands Card - Full Width */}d</div> </div>e'')
     = Some (ustr ''c'', ustr ''e'') \<and>
   remover ForecastBands
     (ustr ''a {/* Unified Forecast Bands Card - Full Width */}b</div></div>c {/* Unified Forecast Bands Card - Full Width */}d</div> </div>e'')
     = ustr ''ace''"
proof -
  have 1: "re_search True (block_pattern (start_marker ForecastBands))
     (ustr ''a {/* Unified Forecast Bands Card - Full Width */}b</div></div>c {/* Unified Forecast Bands Card - Full Width */}d</div> </div>e'')
     = Some (ustr ''a'', ustr ''c {/* Unified Forecast Bands Card - Full Width */}d</div> </div>e'')"
    by (simp add: eval_defs)
  have 2: "re_search True (block_pattern (start_marker ForecastBands))
     (ustr ''c {/* Unified Forecast Bands Card - Full Width */}d</div> </div>e'')
     = Some (ustr ''c'', ustr ''e'')"
    by (simp add: eval_defs)
  have 3: "remover ForecastBands (ustr ''e'') = ustr ''e''"
    by (simp add: eval_defs)
  from every_match_removed[OF 1 2] 1 2 3 show ?thesis by (simp add: ustr_def)
qed

text \<open>
  C2 as stated fails: that \<open>M\<close> contains no occurrence of the end-marker text does not
  keep a closing boundary from starting inside \<open>M\<close> and ending inside \<open>e\<close>. With
  \<open>A = head\n\<close>, \<open>M = </div>\<close>, \<open>e = </div></div>\<close> and \<open>B = \ntail\<close> the marker occurs
  once, \<open>M\<close> contains neither \<open>e\<close> nor any closing boundary, and the remover returns
  \<open>head</div>\ntail\<close>, not \<open>head\ntail\<close>.
\<close>

theorem no_end_in_middle_counterexample:
  "\<not> sublist (ustr ''</div></div>'') (ustr ''</div>'') \<and>
   \<not> has_closing (ustr ''</div>'') \<and>
   occurrences optimization_marker
     (ustr ''head\<newline>{/* Right Column: Optimization Results */}</div></div></div>\<newline>tail'') = [5] \<and>
   remove_optimization_result_section
     (ustr ''head\<newline>{/* Right Column: Optimization Results */}</div></div></div>\<newline>tail'')
     = ustr ''head</div>\<newline>tail'' \<and>
   remove_optimization_result_section
     (ustr ''head\<newline>{/* Right Column: Optimization Results */}</div></div></div>\<newline>tail'')
     \<noteq> rstrip (ustr ''head\<newline>'') @ ustr ''\<newline>tail''"
  by (simp add: eval_defs occurrences_def sublist_Cons_right closing_at_def rstrip_def)

text \<open>
  C2, amended: for every decomposition \<open>D = A + s + M + e + B\<close>, where \<open>s\<close> is the
  remover's start marker, \<open>e\<close> is a closing boundary (\<open></div>\<close>, a run of whitespace,
  \<open></div>\<close>), no closing boundary begins at a position inside \<open>M\<close>, and \<open>s\<close> occurs
  nowhere else in \<open>D\<close>, the remover returns \<open>A' + B\<close>, where \<open>A'\<close> is \<open>A\<close> with its
  trailing whitespace removed.
\<close>

theorem single_block_removed:
  assumes D: "D = A @ start_marker b @ M @ e @ B"
    and e: "e = div_close @ W @ div_close" "list_all isspace W"
    and M: "\<forall>k<length M. \<not> closing_at (drop k (M @ e @ B))"
    and once: "occurrences (start_marker b) D = [length A]"
  shows "remover b D = rstrip A @ B"
proof -
  have only: "i = length A" if "i \<le> length D" "prefix (start_marker b) (drop i D)" for i
    using that occurrences_iff[of i "start_marker b" D] once by simp
  have "\<forall>i<length A. \<not> prefix (start_marker b) (drop i D)"
  proof (intro allI impI notI)
    fix i assume "i < length A" "prefix (start_marker b) (drop i D)"
    moreover from \<open>i < length A\<close> have "i \<le> length D" using D by simp
    ultimately show False using only by blast
  qed
  then have 1: "remover b D = rstrip A @ remover b B"
    using first_block[OF e(2), of M B A b] M unfolding D e(1) by simp
  have "\<not> sublist (start_marker b) B"
  proof
    assume "sublist (start_marker b) B"
    then obtain ps ss where B: "B = ps @ start_marker b @ ss" by (auto simp: sublist_def)
    let ?i = "length (A @ start_marker b @ M @ e @ ps)"
    have "drop ?i D = start_marker b @ ss"
      unfolding D B by (metis append.assoc append_eq_conv_conj)
    then have "prefix (start_marker b) (drop ?i D)" by simp
    moreover have "?i \<le> length D" unfolding D B by simp
    ultimately have "?i = length A" by (rule only[rotated])
    moreover obtain l where "start_marker b = 123 # l" using start_marker_Cons by blast
    ultimately show False by simp
  qed
  then have "remover b B = B"
    using remover_changes_iff followed_sublist by blast
  with 1 show ?thesis by simp
qed

theorem single_block_removed_witness:
  "occurrences (start_marker OptimizationResults)
     (ustr ''head\<newline>{/* Right Column: Optimization Results */}\<newline>foo\<newline></div>\<newline></div>\<newline>tail'') = [5] \<and>
   remover OptimizationResults
     (ustr ''head\<newline>{/* Right Column: Optimization Results */}\<newline>foo\<newline></div>\<newline></div>\<newline>tail'')
     = ustr ''head\<newline>tail''"
proof -
  let ?A = "ustr ''head\<newline>''" and ?M = "ustr ''\<newline>foo\<newline>''"
  let ?W = "ustr ''\<newline>''" and ?B = "ustr ''\<newline>tail''"
  let ?e = "div_close @ ?W @ div_close"
  let ?D = "ustr ''head\<newline>{/* Right Column: Optimization Results */}\<newline>foo\<newline></div>\<newline></div>\<newline>tail''"
  have D: "?D = ?A @ start_marker OptimizationResults @ ?M @ ?e @ ?B"
    by (simp add: eval_defs)
  have W: "list_all isspace ?W" by (simp add: eval_defs)
  have M: "\<forall>k<length ?M. \<not> closing_at (drop k (?M @ ?e @ ?B))"
    by (simp add: eval_defs closing_at_def All_less_Suc)
  have occ: "occurrences (start_marker OptimizationResults) ?D = [length ?A]"
    by (simp add: eval_defs occurrences_def)
  have r: "rstrip ?A @ ?B = ustr ''head\<newline>tail''"
    by (simp add: eval_defs rstrip_def)
  from single_block_removed[OF D refl W M occ] occ r show ?thesis by (simp add: ustr_def)
qed

text \<open>
  C3 as stated fails where the text behind the nearest closing boundary holds another
  start marker with a closing boundary of its own: that block is deleted as well, so the
  text is not preserved verbatim. Below, the first match ends behind \<open>a</div></div>\<close>;
  of the text behind it the remover keeps \<open>b</div></div>c\<close> and \<open>e\<close> only.
\<close>

theorem later_marker_counterexample:
  "str_find (ustr ''{/* Right Column: Optimization Results */}a</div></div>b</div></div>c{/* Right Column: Optimization Results */}d</div></div>e'')
     optimization_marker = Some 0 \<and>
   re_match True (block_pattern optimization_marker)
     (ustr ''{/* Right Column: Optimization Results */}a</div></div>b</div></div>c{/* Right Column: Optimization Results */}d</div></div>e'')
     = Some (ustr ''b</div></div>c{/* Right Column: Optimization Results */}d</div></div>e'') \<and>
   remove_optimization_result_section
     (ustr ''{/* Right Column: Optimization Results */}a</div></div>b</div></div>c{/* Right Column: Optimization Results */}d</div></div>e'')
     = ustr ''b</div></div>ce'' \<and>
   remove_optimization_result_section
     (ustr ''{/* Right Column: Optimization Results */}a</div></div>b</div></div>c{/* Right Column: Optimization Results */}d</div></div>e'')
     \<noteq> ustr ''b</div></div>c{/* Right Column: Optimization Results */}d</div></div>e''"
  by (simp add: eval_defs str_find_def)

text \<open>
  C3, amended: let the first start marker of \<open>D\<close> be at \<open>A\<close>, followed by \<open>M\<close>, and let
  \<open>e\<close> be the nearest closing boundary behind it (none begins inside \<open>M\<close>). Then the
  deleted span ends exactly behind \<open>e\<close>, whatever closing boundaries come later: the
  output is \<open>A\<close> without its trailing whitespace, followed by the remover's output on
  the text \<open>R\<close> behind \<open>e\<close>; \<open>R\<close> is preserved verbatim, later end markers included,
  whenever the start marker does not occur in it.
\<close>

theorem nearest_boundary:
  assumes D: "D = A @ start_marker b @ M @ e @ R"
    and e: "e = div_close @ W @ div_close" "list_all isspace W"
    and M: "\<forall>k<length M. \<not> closing_at (drop k (M @ e @ R))"
    and first: "str_find D (start_marker b) = Some (length A)"
  shows "remover b D = rstrip A @ remover b R \<and>
         (\<not> sublist (start_marker b) R \<longrightarrow> remover b D = rstrip A @ R)"
proof -
  have "\<forall>i<length A. \<not> prefix (start_marker b) (drop i D)"
    using str_find_first[OF first] .
  then have 1: "remover b D = rstrip A @ remover b R"
    using first_block[OF e(2), of M R A b] M unfolding D e(1) by simp
  have "\<not> sublist (start_marker b) R \<longrightarrow> remover b R = R"
    using remover_changes_iff followed_sublist by blast
  with 1 show ?thesis by simp
qed

theorem nearest_boundary_witness:
  "str_find (ustr ''ab \<newline>{/* Right Column: Optimization Results */}x</div> </div>y</div></div>z'')
     (start_marker OptimizationResults) = Some 4 \<and>
   has_closing (ustr ''y</div></div>z'') \<and>
   \<not> sublist (start_marker OptimizationResults) (ustr ''y</div></div>z'') \<and>
   remover OptimizationResults
     (ustr ''ab \<newline>{/* Right Column: Optimization Results */}x</div> </div>y</div></div>z'')
     = ustr ''aby</div></div>z''"
proof -
  let ?A = "ustr ''ab \<newline>''" and ?M = "ustr ''x''"
  let ?W = "ustr '' ''" and ?R = "ustr ''y</div></div>z''"
  let ?e = "div_close @ ?W @ div_close"
  let ?D = "ustr ''ab \<newline>{/* Right Column: Optimization Results */}x</div> </div>y</div></div>z''"
  have D: "?D = ?A @ start_marker OptimizationResults @ ?M @ ?e @ ?R"
    by (simp add: eval_defs)
  have W: "list_all isspace ?W" by (simp add: eval_defs)
  have M: "\<forall>k<length ?M. \<not> closing_at (drop k (?M @ ?e @ ?R))"
    by (simp add: eval_defs closing_at_def All_less_Suc)
  have first: "str_find ?D (start_marker OptimizationResults) = Some (length ?A)"
    by (simp add: eval_defs str_find_def)
  have R: "\<not> sublist (start_marker OptimizationResults) ?R"
    by (simp add: eval_defs sublist_Cons_right)
  have c: "has_closing ?R"
    by (simp add: eval_defs closing_at_def)
  have r: "rstrip ?A @ ?R = ustr ''aby</div></div>z''"
    by (simp add: eval_defs rstrip_def)
  from nearest_boundary[OF D refl W M first] R
  have "remover OptimizationResults ?D = rstrip ?A @ ?R" by blast
  then have res: "remover OptimizationResults ?D = ustr ''aby</div></div>z''"
    by (simp only: r)
  have "length ?A = 4" by (simp add: ustr_def)
  with first have "str_find ?D (start_marker OptimizationResults) = Some 4" by (simp only:)
  with R c res show ?thesis by blast
qed

text \<open>
  C4 as stated fails: the end of a block is not one literal text. A block closed by
  \<open></div> \n </div>\<close>, which contains neither \<open></div></div>\<close> nor \<open></div>\n</div>\<close>, is
  deleted, and so is one closed by \<open></div></div>\<close>; a marker followed by a single
  \<open></div>\<close> is left alone.
\<close>

theorem literal_end_marker_counterexample:
  "\<not> sublist (ustr ''</div></div>'')
       (ustr ''{/* Right Column: Optimization Results */}x</div> \<newline> </div>'') \<and>
   \<not> sublist (ustr ''</div>\<newline></div>'')
       (ustr ''{/* Right Column: Optimization Results */}x</div> \<newline> </div>'') \<and>
   remove_optimization_result_section
     (ustr ''{/* Right Column: Optimization Results */}x</div> \<newline> </div>'') = [] \<and>
   remove_optimization_result_section
     (ustr ''{/* Right Column: Optimization Results */}x</div></div>'') = [] \<and>
   sublist (ustr ''</div>'') (ustr ''{/* Right Column: Optimization Results */}x</div>'') \<and>
   remove_optimization_result_section
     (ustr ''{/* Right Column: Optimization Results */}x</div>'')
     = ustr ''{/* Right Column: Optimization Results */}x</div>''"
  by (simp add: eval_defs sublist_Cons_right)

text \<open>
  C4, amended: the start marker is matched verbatim as a literal string; the end of the
  block is \<open></div>\<close>, any run of whitespace (possibly empty) and \<open></div>\<close>. A remover
  deletes something if and only if the document contains the exact start-marker text
  followed later by \<open></div>\<close>, zero or more whitespace characters and \<open></div>\<close>.
\<close>

theorem boundary_match:
  "remover b D \<noteq> D \<longleftrightarrow>
   (\<exists>A M W B. D = A @ start_marker b @ M @ div_close @ W @ div_close @ B \<and> list_all isspace W)"
proof -
  obtain l where "start_marker b = 123 # l" using start_marker_Cons by blast
  then show ?thesis
    using followed_iff[of 123 l D] by (simp only: remover_changes_iff)
qed

theorem boundary_match_witness:
  "remover ForecastBands
     (ustr ''a{/* Unified Forecast Bands Card - Full Width */}b</div>\<newline> </div>c'')
     \<noteq> ustr ''a{/* Unified Forecast Bands Card - Full Width */}b</div>\<newline> </div>c'' \<and>
   (\<exists>A M W B.
      ustr ''a{/* Unified Forecast Bands Card - Full Width */}b</div>\<newline> </div>c''
        = A @ start_marker ForecastBands @ M @ div_close @ W @ div_close @ B \<and>
      list_all isspace W)"
proof -
  have "remover ForecastBands
     (ustr ''a{/* Unified Forecast Bands Card - Full Width */}b</div>\<newline> </div>c'')
     \<noteq> ustr ''a{/* Unified Forecast Bands Card - Full Width */}b</div>\<newline> </div>c''"
    by (simp add: eval_defs)
  with boundary_match[of ForecastBands
      "ustr ''a{/* Unified Forecast Bands Card - Full Width */}b</div>\<newline> </div>c''"]
  show ?thesis by blast
qed

section \<open>Documents that stay as they are\<close>

text \<open>
  C5: a document in which the remover's start marker does not occur is returned
  unchanged; hence a second application of the remover to a reduced document in which
  the start marker no longer occurs changes nothing.
\<close>

theorem marker_absent_unchanged:
  "(\<not> sublist (start_marker b) D \<longrightarrow> remover b D = D) \<and>
   (\<not> sublist (start_marker b) (remover b E) \<longrightarrow> remover b (remover b E) = remover b E)"
  using remover_changes_iff followed_sublist by blast

theorem marker_absent_unchanged_witness:
  "\<not> sublist (start_marker OptimizationResults) (ustr ''head\<newline></div>\<newline></div>\<newline>tail'') \<and>
   remover OptimizationResults (ustr ''head\<newline></div>\<newline></div>\<newline>tail'')
     = ustr ''head\<newline></div>\<newline></div>\<newline>tail'' \<and>
   \<not> sublist (start_marker OptimizationResults)
       (remover OptimizationResults
          (ustr ''head\<newline>{/* Right Column: Optimization Results */}\<newline>foo\<newline></div>\<newline></div>\<newline>tail'')) \<and>
   remover OptimizationResults
     (remover OptimizationResults
        (ustr ''head\<newline>{/* Right Column: Optimization Results */}\<newline>foo\<newline></div>\<newline></div>\<newline>tail''))
     = ustr ''head\<newline>tail''"
proof -
  let ?D = "ustr ''head\<newline></div>\<newline></div>\<newline>tail''"
  let ?E = "ustr ''head\<newline>{/* Right Column: Optimization Results */}\<newline>foo\<newline></div>\<newline></div>\<newline>tail''"
  have 1: "\<not> sublist (start_marker OptimizationResults) ?D"
    by (simp add: eval_defs sublist_Cons_right)
  have E: "remover OptimizationResults ?E = ustr ''head\<newline>tail''"
    by (simp add: eval_defs)
  have 2: "\<not> sublist (start_marker OptimizationResults) (remover OptimizationResults ?E)"
    unfolding E by (simp add: eval_defs sublist_Cons_right)
  from marker_absent_unchanged[of OptimizationResults ?D ?E] 1 2 E show ?thesis by simp
qed

text \<open>
  C9: a document in which the start marker occurs, but no occurrence of it has a closing
  boundary anywhere behind it, is returned unchanged.
\<close>

theorem unclosed_marker_unchanged:
  assumes "sublist (start_marker b) D" and "\<not> followed (start_marker b) D"
  shows "remover b D = D"
  using assms(2) remover_changes_iff[of b D] by blast

theorem unclosed_marker_unchanged_witness:
  "sublist (start_marker ForecastBands)
     (ustr ''x{/* Unified Forecast Bands Card - Full Width */}y</div>z</ div></div>'') \<and>
   \<not> followed (start_marker ForecastBands)
     (ustr ''x{/* Unified Forecast Bands Card - Full Width */}y</div>z</ div></div>'') \<and>
   remover ForecastBands
     (ustr ''x{/* Unified Forecast Bands Card - Full Width */}y</div>z</ div></div>'')
     = ustr ''x{/* Unified Forecast Bands Card - Full Width */}y</div>z</ div></div>''"
proof -
  let ?D = "ustr ''x{/* Unified Forecast Bands Card - Full Width */}y</div>z</ div></div>''"
  have 1: "sublist (start_marker ForecastBands) ?D"
    by (simp add: eval_defs sublist_Cons_right)
  have 2: "\<not> followed (start_marker ForecastBands) ?D"
    by (simp add: eval_defs closing_at_def)
  from unclosed_marker_unchanged[OF 1 2] 1 2 show ?thesis by simp
qed

section \<open>Scenario 1\<close>

text \<open>
  C6: \<open>remove_optimization_result_section\<close> applied to
  \<open>head\n{/* Right Column: Optimization Results */}\nfoo\n</div>\n</div>\ntail\<close>
  returns \<open>head\ntail\<close>.
\<close>

theorem scenario_1:
  "remove_optimization_result_section
     (ustr ''head\<newline>{/* Right Column: Optimization Results */}\<newline>foo\<newline></div>\<newline></div>\<newline>tail'')
   = ustr ''head\<newline>tail''"
  by (simp add: eval_defs)

section \<open>The driver\<close>

text \<open>
  C7 as stated fails when \<open>C\<close> is what the file holds: \<open>read\<close> turns a carriage return
  and line feed pair into one line feed before the length is taken. For a file holding
  \<open>a\r\nb\<close>, four characters that both removers leave alone, the driver prints the size
  3 three times and writes \<open>a\nb\<close>.
\<close>

theorem raw_content_counterexample:
  "main \<lparr>files = [file_path \<mapsto>
                  \<lparr>readable = True, writable = True, decoded = Some [97, 13, 10, 98]\<rparr>],
         linesep = [10], stdout = []\<rparr>
     = (None,
        \<lparr>files = [file_path \<mapsto>
                  \<lparr>readable = True, writable = True, decoded = Some [97, 10, 98]\<rparr>],
         linesep = [10],
         stdout =
           [''Original file size: 3 characters'',
            ''After removing optimization result: 3 characters'',
            ''After removing forecast bands: 3 characters'',
            ''Successfully removed both sections!'']\<rparr>) \<and>
   remove_forecast_bands_section (remove_optimization_result_section [97, 13, 10, 98])
     = [97, 13, 10, 98] \<and>
   [97, 10, 98] \<noteq> [97, 13, 10, (98::nat)] \<and>
   ''Original file size: '' @ format_int (length [97, 13, 10, (98::nat)]) @ '' characters''
     = ''Original file size: 4 characters''"
  by (simp add: main_def read_text_def write_text_def print_def Let_def format_int.simps
      eval_defs)

text \<open>
  C7, amended: when the file at the fixed path can be read and written, let \<open>C\<close> be the
  text \<open>read\<close> returns, that is the file's content with every carriage return and line
  feed pair and every lone carriage return turned into a line feed. \<open>main\<close> applies the
  results removal first and the bands removal second and writes
  \<open>remove_forecast_bands_section (remove_optimization_result_section C)\<close> back to the
  same path (each line feed stored as the platform's line separator); nothing else in the
  file system changes, and the lines printed are the three sizes (of \<open>C\<close>, of the text
  after the first removal, of the text after the second) and the closing message.
\<close>

theorem main_applies_both:
  assumes "files w file_path = Some fl" "readable fl" "writable fl" "decoded fl = Some C0"
    and "C = read_translate C0"
  shows "main w =
    (None,
     \<lparr>files = (files w)(file_path \<mapsto>
        fl\<lparr>decoded := Some (write_translate (linesep w)
          (remove_forecast_bands_section (remove_optimization_result_section C)))\<rparr>),
      linesep = linesep w,
      stdout = stdout w @
        [''Original file size: '' @ format_int (length C) @ '' characters'',
         ''After removing optimization result: ''
           @ format_int (length (remove_optimization_result_section C)) @ '' characters'',
         ''After removing forecast bands: ''
           @ format_int (length (remove_forecast_bands_section
                                   (remove_optimization_result_section C))) @ '' characters'',
         ''Successfully removed both sections!'']\<rparr>)"
  using assms by (simp add: main_def read_text_def write_text_def print_def Let_def)

theorem main_applies_both_witness:
  "read_translate crlf_page =
     ustr ''x\<newline>{/* Right Column: Optimization Results */}a</div></div>\<newline>y{/* Unified Forecast Bands Card - Full Width */}b</div> </div>'' \<and>
   main crlf_world =
    (None,
     \<lparr>files = [file_path \<mapsto>
        \<lparr>readable = True, writable = True, decoded = Some [120, 13, 10, 121]\<rparr>],
      linesep = [13, 10],
      stdout =
        [''Original file size: 121 characters'',
         ''After removing optimization result: 65 characters'',
         ''After removing forecast bands: 3 characters'',
         ''Successfully removed both sections!'']\<rparr>)"
proof -
  let ?fl = "\<lparr>readable = True, writable = True, decoded = Some crlf_page\<rparr>"
  let ?C = "ustr ''x\<newline>{/* Right Column: Optimization Results */}a</div></div>\<newline>y{/* Unified Forecast Bands Card - Full Width */}b</div> </div>''"
  have f: "files crlf_world file_path = Some ?fl"
    by (simp add: crlf_world_def)
  have r: "readable ?fl" and w: "writable ?fl" and d: "decoded ?fl = Some crlf_page"
    by simp_all
  have C: "?C = read_translate crlf_page"
    by (simp add: crlf_page_def ustr_def)
  have r1: "remove_optimization_result_section ?C =
            ustr ''x\<newline>y{/* Unified Forecast Bands Card - Full Width */}b</div> </div>''"
    by (simp add: eval_defs)
  have r2: "remove_forecast_bands_section
              (ustr ''x\<newline>y{/* Unified Forecast Bands Card - Full Width */}b</div> </div>'')
            = ustr ''x\<newline>y''"
    by (simp add: eval_defs)
  have l: "length ?C = 121"
    "length (ustr ''x\<newline>y{/* Unified Forecast Bands Card - Full Width */}b</div> </div>'') = 65"
    "length (ustr ''x\<newline>y'') = 3"
    by (simp_all add: ustr_def)
  have fm: "format_int 121 = ''121''" "format_int 65 = ''65''" "format_int 3 = ''3''"
    by (simp_all add: format_int.simps)
  have wt: "write_translate (linesep crlf_world) (ustr ''x\<newline>y'') = [120, 13, 10, 121]"
    by (simp add: crlf_world_def ustr_def)
  note m = main_applies_both[OF f r w d C]
  have "main crlf_world =
    (None,
     \<lparr>files = (files crlf_world)(file_path \<mapsto> ?fl\<lparr>decoded := Some [120, 13, 10, 121]\<rparr>),
      linesep = linesep crlf_world,
      stdout = stdout crlf_world @
        [''Original file size: '' @ ''121'' @ '' characters'',
         ''After removing optimization result: '' @ ''65'' @ '' characters'',
         ''After removing forecast bands: '' @ ''3'' @ '' characters'',
         ''Successfully removed both sections!'']\<rparr>)"
    using m by (simp only: r1 r2 l fm wt)
  then have "main crlf_world =
    (None,
     \<lparr>files = [file_path \<mapsto>
        \<lparr>readable = True, writable = True, decoded = Some [120, 13, 10, 121]\<rparr>],
      linesep = [13, 10],
      stdout =
        [''Original file size: 121 characters'',
         ''After removing optimization result: 65 characters'',
         ''After removing forecast bands: 3 characters'',
         ''Successfully removed both sections!'']\<rparr>)"
    by (simp add: crlf_world_def)
  with C show ?thesis by simp
qed

text \<open>
  C8: when reading the file fails, \<open>main\<close> ends with that error and leaves the world as
  it found it: nothing is written and nothing printed.
\<close>

theorem read_failure_no_write:
  assumes "read_text w file_path = Inl e"
  shows "main w = (Some e, w)"
  using assms by (simp add: main_def)

theorem read_failure_no_write_witness:
  "read_text \<lparr>files = Map.empty, linesep = [10], stdout = []\<rparr> file_path = Inl FileNotFoundError \<and>
   main \<lparr>files = Map.empty, linesep = [10], stdout = []\<rparr> = (Some FileNotFoundError, \<lparr>files = Map.empty, linesep = [10], stdout = []\<rparr>) \<and>
   read_text \<lparr>files = [file_path \<mapsto> \<lparr>readable = True, writable = True, decoded = None\<rparr>],
              linesep = [10], stdout = []\<rparr> file_path = Inl UnicodeDecodeError \<and>
   main \<lparr>files = [file_path \<mapsto> \<lparr>readable = True, writable = True, decoded = None\<rparr>],
         linesep = [10], stdout = []\<rparr>
     = (Some UnicodeDecodeError,
        \<lparr>files = [file_path \<mapsto> \<lparr>readable = True, writable = True, decoded = None\<rparr>],
         linesep = [10], stdout = []\<rparr>)"
proof -
  have 1: "read_text \<lparr>files = Map.empty, linesep = [10], stdout = []\<rparr> file_path = Inl FileNotFoundError"
    by (simp add: read_text_def)
  have 2: "read_text \<lparr>files = [file_path \<mapsto> \<lparr>readable = True, writable = True, decoded = None\<rparr>],
              linesep = [10], stdout = []\<rparr> file_path = Inl UnicodeDecodeError"
    by (simp add: read_text_def)
  from read_failure_no_write[OF 1] read_failure_no_write[OF 2] 1 2 show ?thesis by blast
qed

text \<open>
  C10: the output of either remover is never longer than its input, and the three sizes
  the driver prints are those of \<open>C\<close>, of the text after the first removal and of the
  text after the second, each at most the one before.
\<close>

theorem sizes_non_increasing:
  "length (remove_optimization_result_section D) \<le> length D \<and>
   length (remove_forecast_bands_section D) \<le> length D \<and>
   (read_text w file_path = Inr C \<longrightarrow>
      take 3 (drop (length (stdout w)) (stdout (snd (main w)))) =
        [''Original file size: '' @ format_int (length C) @ '' characters'',
         ''After removing optimization result: ''
           @ format_int (length (remove_optimization_result_section C)) @ '' characters'',
         ''After removing forecast bands: ''
           @ format_int (length (remove_forecast_bands_section
                                   (remove_optimization_result_section C))) @ '' characters''] \<and>
      length (remove_forecast_bands_section (remove_optimization_result_section C))
        \<le> length (remove_optimization_result_section C) \<and>
      length (remove_optimization_result_section C) \<le> length C)"
proof -
  have r: "length (remove_optimization_result_section t) \<le> length t" for t
    using remover_length[of OptimizationResults t] by simp
  have f: "length (remove_forecast_bands_section t) \<le> length t" for t
    using remover_length[of ForecastBands t] by simp
  have "take 3 (drop (length (stdout w)) (stdout (snd (main w)))) =
        [''Original file size: '' @ format_int (length C) @ '' characters'',
         ''After removing optimization result: ''
           @ format_int (length (remove_optimization_result_section C)) @ '' characters'',
         ''After removing forecast bands: ''
           @ format_int (length (remove_forecast_bands_section
                                   (remove_optimization_result_section C))) @ '' characters'']"
    if "read_text w file_path = Inr C"
    using that
    by (simp add: main_def Let_def write_text_def print_def split: option.splits)
  with r f show ?thesis by blast
qed

theorem sizes_non_increasing_witness:
  "read_text example_world file_path = Inr example_page \<and>
   take 3 (drop (length (stdout example_world)) (stdout (snd (main example_world)))) =
     [''Original file size: 162 characters'',
      ''After removing optimization result: 88 characters'',
      ''After removing forecast bands: 14 characters''] \<and>
   length (remove_forecast_bands_section (remove_optimization_result_section example_page)) = 14 \<and>
   length (remove_optimization_result_section example_page) = 88 \<and>
   length example_page = 162"
proof -
  have 1: "read_text example_world file_path = Inr example_page"
    by (simp add: read_text_def example_world_def example_file_def example_page_def ustr_def)
  from sizes_non_increasing[of example_page example_world example_page] 1
  have "take 3 (drop (length (stdout example_world)) (stdout (snd (main example_world)))) =
        [''Original file size: '' @ format_int (length example_page) @ '' characters'',
         ''After removing optimization result: ''
           @ format_int (length (remove_optimization_result_section example_page)) @ '' characters'',
         ''After removing forecast bands: ''
           @ format_int (length (remove_forecast_bands_section
                                   (remove_optimization_result_section example_page))) @ '' characters'']"
    by blast
  then have "take 3 (drop (length (stdout example_world)) (stdout (snd (main example_world)))) =
     [''Original file size: 162 characters'',
      ''After removing optimization result: 88 characters'',
      ''After removing forecast bands: 14 characters'']"
    unfolding example_lengths example_formats by simp
  with 1 example_lengths show ?thesis by blast
qed

end
